theory Spec2Isabelle
  imports Main "HOL-Library.Word" "HOL-Library.List_Lexorder"
begin

unbundle bit_operations_syntax

section \<open>Data model\<close>

text \<open>
  A JavaScript string is a sequence of UTF-16 code units; \<open>charCodeAt\<close> reads one of
  them as a number in \<open>0..65535\<close>. A \<open>Uint8Array\<close> or \<open>Buffer\<close> is a sequence of
  bytes. A \<open>BigInt\<close> is an unbounded integer.
\<close>

type_synonym code_unit = "16 word"
type_synonym js_string = "code_unit list"
type_synonym byte = "8 word"

text \<open>
  The source throws plain \<open>Error\<close> objects that differ in their message only. Each
  constructor stands for one \<open>throw\<close> site and carries the values interpolated into
  its message:
  \<^item> \<open>InputLengthError n\<close>: "Input must be exactly 16 bytes, got n" (encode);
  \<^item> \<open>EmptyError\<close>: "Empty or invalid Base58 string";
  \<^item> \<open>LengthError n\<close>: "Invalid Base58 length: expected 22, got n";
  \<^item> \<open>CharCodeError i c\<close>: "Invalid character at position i: c";
  \<^item> \<open>Base58CharError i c\<close>: "Invalid Base58 character at position i: c";
  \<^item> \<open>OverflowError\<close>: "Overflow: value exceeds maximum UUID value".
\<close>

datatype error =
    InputLengthError nat
  | EmptyError
  | LengthError nat
  | CharCodeError nat code_unit
  | Base58CharError nat code_unit
  | OverflowError

text \<open>The failure kinds of the specification, and the kind each thrown error belongs to.\<close>

datatype error_kind = InvalidLength | InvalidFormat | InvalidCharacter | Overflow

fun kind :: "error \<Rightarrow> error_kind" where
  "kind (InputLengthError n) = InvalidLength"
| "kind EmptyError = InvalidFormat"
| "kind (LengthError n) = InvalidLength"
| "kind (CharCodeError i c) = InvalidCharacter"
| "kind (Base58CharError i c) = InvalidCharacter"
| "kind OverflowError = Overflow"

section \<open>Constants and lookup tables\<close>

text \<open>A string literal of the source, as its code units.\<close>

abbreviation js :: "string \<Rightarrow> js_string" where
  "js s \<equiv> map of_char s"

definition ALPHABET :: js_string where
  "ALPHABET = js ''123456789ABCDEFGHJKLMNPQRSTUVWXYZabcdefghijkmnopqrstuvwxyz''"

text \<open>
  The reverse lookup table: a \<open>Uint8Array\<close> of 256 entries filled with 255, then
  overwritten at the code of every alphabet symbol with the symbol's index.
\<close>

definition REVERSE_ALPHABET :: "byte list" where
  "REVERSE_ALPHABET =
     fold (\<lambda>i tab. tab[unat (ALPHABET ! i) := of_nat i]) [0..<length ALPHABET]
       (replicate 256 255)"

definition BASE58 :: int where
  "BASE58 = 58"

definition MAX_UUID :: int where
  "MAX_UUID = 0xffffffffffffffffffffffffffffffff"

section \<open>encode\<close>

text \<open>Lines 33-37: the bytes, most significant first, shifted into a BigInt.\<close>

definition bytes_to_bigint :: "byte list \<Rightarrow> int" where
  "bytes_to_bigint bytes =
     fold (\<lambda>i num. push_bit 8 num OR uint (bytes ! i)) [0..<16] 0"

text \<open>
  Lines 41-44: repeated division by 58, least significant digit pushed first. The
  loop runs on positive \<open>num\<close> only, where BigInt's truncating \<open>/\<close> and \<open>%\<close> agree
  with \<open>div\<close> and \<open>mod\<close>.
\<close>

function to_base58 :: "int \<Rightarrow> nat list \<Rightarrow> nat list" where
  "to_base58 num result =
     (if num > 0
      then to_base58 (num div BASE58) (result @ [nat (num mod BASE58)])
      else result)"
  by pat_completeness auto
termination
  by (relation "measure (\<lambda>(num, result). nat num)") (auto simp: BASE58_def)

declare to_base58.simps [simp del]

text \<open>Lines 50-52: zero digits are put in front until there are 22.\<close>

function pad_left :: "nat list \<Rightarrow> nat list" where
  "pad_left result =
     (if length result < 22 then pad_left (0 # result) else result)"
  by pat_completeness auto
termination
  by (relation "measure (\<lambda>result. 22 - length result)") auto

declare pad_left.simps [simp del]

text \<open>
  \<open>ALPHABET[i]\<close>: the one-character string at index \<open>i\<close>; out of range it is
  \<open>undefined\<close>, which \<open>join\<close> renders as the empty string.
\<close>

definition alphabet_at :: "nat \<Rightarrow> js_string" where
  "alphabet_at i = (if i < length ALPHABET then [ALPHABET ! i] else [])"

definition encode :: "byte list \<Rightarrow> error + js_string" where
  "encode data =
     (if length data \<noteq> 16 then Inl (InputLengthError (length data))
      else
        let num = bytes_to_bigint data;
            result = to_base58 num [];
            result = rev result;
            result = pad_left result
        in Inr (concat (map alphabet_at result)))"

section \<open>decode\<close>

text \<open>
  Lines 77-94: one iteration per code unit, with the position \<open>i\<close> and the
  accumulator \<open>num\<close>; every \<open>throw\<close> ends the loop.
\<close>

fun decode_loop :: "js_string \<Rightarrow> nat \<Rightarrow> int \<Rightarrow> error + int" where
  "decode_loop [] i num = Inr num"
| "decode_loop (c # cs) i num =
     (let charCode = unat c in
      if charCode > 255 then Inl (CharCodeError i c)
      else
        let digit = REVERSE_ALPHABET ! charCode in
        if digit = 255 then Inl (Base58CharError i c)
        else
          let num = num * BASE58 + uint digit in
          if num > MAX_UUID then Inl OverflowError
          else decode_loop cs (i + 1) num)"

text \<open>
  Lines 97-103: sixteen times, the low byte is put in front and the number shifted
  right; \<open>Buffer.from\<close> stores each entry as a byte.
\<close>

fun to_bytes_loop :: "nat \<Rightarrow> int \<Rightarrow> int list \<Rightarrow> int list" where
  "to_bytes_loop 0 num bytes = bytes"
| "to_bytes_loop (Suc n) num bytes =
     to_bytes_loop n (drop_bit 8 num) ((num AND 0xFF) # bytes)"

definition bigint_to_bytes :: "int \<Rightarrow> byte list" where
  "bigint_to_bytes num = map word_of_int (to_bytes_loop 16 num [])"

definition decode :: "js_string \<Rightarrow> error + byte list" where
  "decode b58 =
     (if b58 = [] \<or> length b58 = 0 then Inl EmptyError
      else if length b58 \<noteq> 22 then Inl (LengthError (length b58))
      else
        case decode_loop b58 0 0 of
          Inl e \<Rightarrow> Inl e
        | Inr num \<Rightarrow> Inr (bigint_to_bytes num))"

section \<open>Auxiliary notions for the proofs\<close>

text \<open>The number denoted by a sequence of bytes, most significant first, after \<open>h\<close>.\<close>

primrec be_value :: "int \<Rightarrow> byte list \<Rightarrow> int" where
  "be_value h [] = h"
| "be_value h (b # bs) = be_value (h * 256 + uint b) bs"

text \<open>The number denoted by a sequence of base-58 digits, most significant first.\<close>

primrec digits_value :: "int \<Rightarrow> nat list \<Rightarrow> int" where
  "digits_value acc [] = acc"
| "digits_value acc (d # ds) = digits_value (acc * 58 + int d) ds"

text \<open>The digit the reverse lookup table holds for a code unit.\<close>

definition digit_of :: "code_unit \<Rightarrow> nat" where
  "digit_of c = unat (REVERSE_ALPHABET ! unat c)"

section \<open>The alphabet and the reverse lookup table\<close>

lemma ALPHABET_eq:
  "ALPHABET = [49,50,51,52,53,54,55,56,57,65,66,67,68,69,70,71,72,74,75,76,77,78,80,81,
     82,83,84,85,86,87,88,89,90,97,98,99,100,101,102,103,104,105,106,107,109,110,111,
     112,113,114,115,116,117,118,119,120,121,122]"
  by (simp add: ALPHABET_def)

lemma length_ALPHABET: "length ALPHABET = 58"
  by (simp add: ALPHABET_def)

lemma unat_ALPHABET:
  "map unat ALPHABET = [49,50,51,52,53,54,55,56,57,65,66,67,68,69,70,71,72,74,75,76,77,78,
     80,81,82,83,84,85,86,87,88,89,90,97,98,99,100,101,102,103,104,105,106,107,109,110,
     111,112,113,114,115,116,117,118,119,120,121,122]"
  by (simp add: ALPHABET_eq)

lemma sorted_unat_ALPHABET: "sorted_wrt (<) (map unat ALPHABET)"
  unfolding unat_ALPHABET by simp

lemma ALPHABET_nth_less:
  assumes "i < j" "j < 58"
  shows "ALPHABET ! i < ALPHABET ! j"
proof -
  have "map unat ALPHABET ! i < map unat ALPHABET ! j"
    using sorted_wrt_nth_less [OF sorted_unat_ALPHABET, of i j] assms
    by (simp add: length_ALPHABET)
  then show ?thesis
    using assms by (simp add: length_ALPHABET word_less_nat_alt)
qed

lemma distinct_ALPHABET: "distinct ALPHABET"
proof -
  have "distinct (map unat ALPHABET)"
    using sorted_unat_ALPHABET strict_sorted_iff by blast
  then show ?thesis by (simp add: distinct_map)
qed

lemma unat_ALPHABET_le: "c \<in> set ALPHABET \<Longrightarrow> unat c \<le> 122"
proof -
  assume "c \<in> set ALPHABET"
  then have "unat c \<in> set (map unat ALPHABET)" by simp
  then show ?thesis unfolding unat_ALPHABET by auto
qed

lemma unat_eqD: "unat (a::'a::len word) = unat b \<Longrightarrow> a = b"
  by (simp add: word_unat_eq_iff)

lemma fold_update_length:
  "length (fold (\<lambda>i tab. tab[g i := f i]) is tab) = length tab"
  by (induction "is" arbitrary: tab) simp_all

lemma fold_update_other:
  "k \<notin> g ` set is \<Longrightarrow> fold (\<lambda>i tab. tab[g i := f i]) is tab ! k = tab ! k"
  by (induction "is" arbitrary: tab) auto

lemma fold_update_hit:
  "i \<in> set is \<Longrightarrow> inj_on g (set is) \<Longrightarrow> distinct is \<Longrightarrow> g i < length tab \<Longrightarrow>
   fold (\<lambda>i tab. tab[g i := f i]) is tab ! g i = f i"
proof (induction "is" arbitrary: tab)
  case Nil
  then show ?case by simp
next
  case (Cons j js)
  show ?case
  proof (cases "i = j")
    case True
    have "g j \<notin> g ` set js"
      using Cons.prems(2,3) by (auto simp: inj_on_def)
    then show ?thesis
      using True Cons.prems(4) by (simp add: fold_update_other)
  next
    case False
    then show ?thesis
      using Cons by (simp add: inj_on_def)
  qed
qed

lemma length_REVERSE_ALPHABET: "length REVERSE_ALPHABET = 256"
  by (simp add: REVERSE_ALPHABET_def fold_update_length)

lemma REVERSE_ALPHABET_symbol:
  assumes "i < 58"
  shows "REVERSE_ALPHABET ! unat (ALPHABET ! i) = of_nat i"
proof -
  have inj: "inj_on (\<lambda>i. unat (ALPHABET ! i)) (set [0..<length ALPHABET])"
    using distinct_ALPHABET
    by (auto simp: inj_on_def nth_eq_iff_index_eq dest!: unat_eqD)
  have "unat (ALPHABET ! i) \<le> 122"
    using assms by (intro unat_ALPHABET_le) (simp add: length_ALPHABET)
  then have lt: "unat (ALPHABET ! i) < length (replicate 256 (255::byte))"
    by simp
  have "i \<in> set [0..<length ALPHABET]"
    using assms by (simp add: length_ALPHABET)
  from fold_update_hit [where f = of_nat, OF this inj _ lt]
  show ?thesis
    by (simp add: REVERSE_ALPHABET_def)
qed

lemma REVERSE_ALPHABET_other:
  assumes "c \<notin> set ALPHABET" "unat c \<le> 255"
  shows "REVERSE_ALPHABET ! unat c = 255"
proof -
  have "unat c \<notin> (\<lambda>i. unat (ALPHABET ! i)) ` set [0..<length ALPHABET]"
    using assms(1) by (auto simp: in_set_conv_nth dest!: unat_eqD)
  then show ?thesis
    using assms(2) by (simp add: REVERSE_ALPHABET_def fold_update_other)
qed

section \<open>Bytes and big integers\<close>

lemma uint_byte_bound: "0 \<le> uint (b::byte) \<and> uint b < 256"
  using uint_bounded [of b] by simp

lemma or_byte: "push_bit 8 num OR uint (b::byte) = num * 256 + uint b"
proof -
  have tb: "take_bit 8 (uint b) = uint b"
    using uint_byte_bound [of b] by (simp add: take_bit_eq_mod)
  have "push_bit 8 num OR uint b = concat_bit 8 (uint b) num"
    by (simp add: concat_bit_def or.commute tb)
  also have "\<dots> = uint b + num * 256"
    by (simp add: concat_bit_eq push_bit_eq_mult tb)
  finally show ?thesis by simp
qed

lemma and_255: "(k::int) AND 0xFF = k mod 256"
proof -
  have m: "mask 8 = (255::int)" by (simp add: mask_eq_exp_minus_1)
  have "k AND mask 8 = take_bit 8 k" by (simp add: take_bit_eq_mask)
  then show ?thesis by (simp add: m take_bit_eq_mod)
qed

lemma drop_8: "drop_bit 8 (k::int) = k div 256"
  by (simp add: drop_bit_eq_div)

lemma fold_index:
  "fold (\<lambda>i. f (xs ! i)) [0..<length xs] a = fold f xs a"
proof (induction xs arbitrary: a rule: rev_induct)
  case Nil
  then show ?case by simp
next
  case (snoc x xs)
  have "fold (\<lambda>i. f ((xs @ [x]) ! i)) [0..<length xs] a = fold (\<lambda>i. f (xs ! i)) [0..<length xs] a"
    by (rule fold_cong) (simp_all add: nth_append)
  then show ?case
    using snoc by simp
qed

lemma bytes_to_bigint_be_value:
  assumes "length bytes = 16"
  shows "bytes_to_bigint bytes = be_value 0 bytes"
proof -
  have fold_be: "fold (\<lambda>b num. num * 256 + uint b) bs h = be_value h bs" for bs h
    by (induction bs arbitrary: h) simp_all
  have "bytes_to_bigint bytes =
      fold (\<lambda>i. (\<lambda>b num. num * 256 + uint b) (bytes ! i)) [0..<length bytes] 0"
    by (simp add: bytes_to_bigint_def or_byte assms)
  also have "\<dots> = fold (\<lambda>b num. num * 256 + uint b) bytes 0"
    by (rule fold_index)
  finally show ?thesis
    by (simp add: fold_be)
qed

lemma be_value_snoc: "be_value h (bs @ [b]) = be_value h bs * 256 + uint b"
  by (induction bs arbitrary: h) simp_all

lemma be_value_nonneg: "0 \<le> h \<Longrightarrow> 0 \<le> be_value h bs"
  by (induction bs arbitrary: h) simp_all

lemma be_value_less: "be_value 0 bs < 256 ^ length bs"
proof (induction bs rule: rev_induct)
  case Nil
  then show ?case by simp
next
  case (snoc b bs)
  have "uint b < 256" using uint_byte_bound [of b] by simp
  with snoc show ?case
    by (simp add: be_value_snoc)
qed

lemma split_byte:
  assumes "0 \<le> r" "r < 256"
  shows "(v * 256 + r) div 256 = (v::int)" "(v * 256 + r) mod 256 = r"
  using assms by simp_all

lemma to_bytes_loop_be_value:
  "to_bytes_loop (length bs) (be_value h bs) acc = map uint bs @ acc"
proof (induction bs arbitrary: acc rule: rev_induct)
  case Nil
  then show ?case by simp
next
  case (snoc b bs)
  have b: "0 \<le> uint b" "uint b < 256"
    using uint_byte_bound [of b] by simp_all
  have "uint b mod 256 = uint b"
    using b by simp
  then show ?case
    using snoc [of "uint b # acc"]
    by (simp add: be_value_snoc and_255 drop_8 split_byte [OF b])
qed

lemma bigint_to_bytes_bytes_to_bigint:
  assumes "length data = 16"
  shows "bigint_to_bytes (bytes_to_bigint data) = data"
proof -
  have "to_bytes_loop 16 (be_value 0 data) [] = map uint data"
    using to_bytes_loop_be_value [of data 0 "[]"] assms by simp
  then show ?thesis
    by (simp add: bigint_to_bytes_def bytes_to_bigint_be_value assms map_idI)
qed

lemma length_to_bytes_loop: "length (to_bytes_loop n num acc) = n + length acc"
  by (induction n arbitrary: num acc) simp_all

lemma length_bigint_to_bytes: "length (bigint_to_bytes num) = 16"
  by (simp add: bigint_to_bytes_def length_to_bytes_loop)

lemma be_value_to_bytes_loop:
  "be_value h (map word_of_int (to_bytes_loop n num acc)) =
   be_value (h * 256 ^ n + num mod 256 ^ n) (map word_of_int acc)"
proof (induction n arbitrary: num acc)
  case 0
  then show ?case by simp
next
  case (Suc n)
  have u: "uint (word_of_int (num mod 256) :: byte) = num mod 256"
    by (simp add: uint_word_of_int)
  have m: "num mod (256 * 256 ^ n) = 256 * (num div 256 mod 256 ^ n) + num mod 256"
    by (rule zmod_zmult2_eq) simp
  show ?case
    by (simp add: Suc and_255 drop_8 u m algebra_simps)
qed

lemma bytes_to_bigint_bigint_to_bytes:
  assumes "0 \<le> v" "v \<le> MAX_UUID"
  shows "bytes_to_bigint (bigint_to_bytes v) = v"
proof -
  have "v < 256 ^ 16" using assms(2) by (simp add: MAX_UUID_def)
  then have "v mod 256 ^ 16 = v" using assms(1) by simp
  moreover have "bytes_to_bigint (bigint_to_bytes v) = be_value 0 (bigint_to_bytes v)"
    by (rule bytes_to_bigint_be_value) (rule length_bigint_to_bytes)
  ultimately show ?thesis
    using be_value_to_bytes_loop [of 0 16 v "[]"]
    by (simp add: bigint_to_bytes_def)
qed

section \<open>Base-58 digits\<close>

lemma digits_value_append:
  "digits_value acc (xs @ ys) = digits_value (digits_value acc xs) ys"
  by (induction xs arbitrary: acc) simp_all

lemma digits_value_shift:
  "digits_value acc ds = acc * 58 ^ length ds + digits_value 0 ds"
proof (induction ds arbitrary: acc)
  case Nil
  then show ?case by simp
next
  case (Cons d ds)
  show ?case
    using Cons [of "acc * 58 + int d"] Cons [of "int d"]
    by (simp add: algebra_simps)
qed

lemma digits_value_nonneg: "0 \<le> acc \<Longrightarrow> 0 \<le> digits_value acc ds"
  by (induction ds arbitrary: acc) simp_all

lemma digits_value_mono: "0 \<le> acc \<Longrightarrow> acc \<le> digits_value acc ds"
proof (induction ds arbitrary: acc)
  case Nil
  then show ?case by simp
next
  case (Cons d ds)
  have "acc \<le> acc * 58 + int d" using Cons.prems by simp
  also have "\<dots> \<le> digits_value (acc * 58 + int d) ds"
    using Cons.prems by (intro Cons.IH) simp
  finally show ?case by simp
qed

lemma digits_value_less:
  "\<forall>d\<in>set ds. d < 58 \<Longrightarrow> digits_value 0 ds < 58 ^ length ds"
proof (induction ds rule: rev_induct)
  case Nil
  then show ?case by simp
next
  case (snoc d ds)
  then have "digits_value 0 ds < 58 ^ length ds" "int d < 58"
    by simp_all
  then show ?case
    by (simp add: digits_value_append)
qed

lemma digits_value_zeros: "digits_value 0 (replicate k 0 @ ds) = digits_value 0 ds"
  by (induction k) simp_all

lemma to_base58_acc: "to_base58 num result = result @ to_base58 num []"
proof (induction "nat num" arbitrary: num result rule: less_induct)
  case less
  show ?case
  proof (cases "num > 0")
    case True
    define d where "d = nat (num mod 58)"
    have lt: "nat (num div 58) < nat num"
      using True by (simp add: nat_less_iff)
    have "to_base58 num result = to_base58 (num div 58) (result @ [d])"
      using True by (simp add: to_base58.simps [of num result] BASE58_def d_def)
    also have "\<dots> = (result @ [d]) @ to_base58 (num div 58) []"
      by (rule less [OF lt])
    also have "\<dots> = result @ to_base58 (num div 58) [d]"
      using less [OF lt, of "[d]"] by simp
    also have "\<dots> = result @ to_base58 num []"
      using True by (simp add: to_base58.simps [of num "[]"] BASE58_def d_def)
    finally show ?thesis .
  next
    case False
    then show ?thesis
      by (simp add: to_base58.simps [of num])
  qed
qed

lemma to_base58_rec:
  "to_base58 num [] =
     (if num > 0 then nat (num mod 58) # to_base58 (num div 58) [] else [])"
  using to_base58_acc [of "num div 58" "[nat (num mod 58)]"]
  by (simp add: to_base58.simps [of num "[]"] BASE58_def)

lemma to_base58_digits: "\<forall>d\<in>set (to_base58 num []). d < 58"
proof (induction "nat num" arbitrary: num rule: less_induct)
  case less
  show ?case
  proof (cases "num > 0")
    case True
    have lt: "nat (num div 58) < nat num"
      using True by (simp add: nat_less_iff)
    have "nat (num mod 58) < 58"
      by (simp add: nat_less_iff)
    then show ?thesis
      using less [OF lt] True by (simp add: to_base58_rec [of num])
  next
    case False
    then show ?thesis by (simp add: to_base58_rec [of num])
  qed
qed

lemma to_base58_value:
  "0 \<le> num \<Longrightarrow> digits_value 0 (rev (to_base58 num [])) = num"
proof (induction "nat num" arbitrary: num rule: less_induct)
  case less
  show ?case
  proof (cases "num > 0")
    case True
    have lt: "nat (num div 58) < nat num"
      using True by (simp add: nat_less_iff)
    have "0 \<le> num div 58"
      using True by simp
    then have "digits_value 0 (rev (to_base58 (num div 58) [])) = num div 58"
      using lt by (rule less(1) [rotated])
    then show ?thesis
      using True by (simp add: to_base58_rec [of num] digits_value_append)
  next
    case False
    then have "num = 0" using less.prems by simp
    then show ?thesis
      by (simp add: to_base58_rec [of 0])
  qed
qed

lemma to_base58_length: "num < 58 ^ n \<Longrightarrow> length (to_base58 num []) \<le> n"
proof (induction n arbitrary: num)
  case 0
  then show ?case by (simp add: to_base58_rec [of num])
next
  case (Suc n)
  show ?case
  proof (cases "num > 0")
    case True
    have "num < 58 * 58 ^ n" using Suc.prems by simp
    then have "num div 58 < 58 ^ n" by presburger
    then have "length (to_base58 (num div 58) []) \<le> n" by (rule Suc.IH)
    then show ?thesis
      using True by (simp add: to_base58_rec [of num])
  next
    case False
    then show ?thesis by (simp add: to_base58_rec [of num])
  qed
qed

lemma pad_left_eq: "pad_left result = replicate (22 - length result) 0 @ result"
proof (induction result rule: pad_left.induct)
  case (1 result)
  show ?case
  proof (cases "length result < 22")
    case True
    have "replicate (22 - length result) (0::nat) = replicate (21 - length result) 0 @ [0]"
      using True by (simp add: Suc_diff_Suc replicate_append_same flip: replicate_Suc)
    then show ?thesis
      using True "1.IH" [OF True] by (simp add: pad_left.simps [of result])
  next
    case False
    then show ?thesis by (simp add: pad_left.simps [of result])
  qed
qed

section \<open>Evaluation at concrete inputs\<close>

lemma REVERSE_ALPHABET_49: "REVERSE_ALPHABET ! 49 = 0"
  using REVERSE_ALPHABET_symbol [of 0] by (simp add: ALPHABET_eq)

lemma REVERSE_ALPHABET_122: "REVERSE_ALPHABET ! 122 = 57"
  using REVERSE_ALPHABET_symbol [of 57] by (simp add: ALPHABET_eq)

lemma replicate_16: "replicate 16 x = [x, x, x, x, x, x, x, x, x, x, x, x, x, x, x, x]"
  by (simp add: numeral_eq_Suc)

lemma replicate_22:
  "replicate 22 x = [x, x, x, x, x, x, x, x, x, x, x, x, x, x, x, x, x, x, x, x, x, x]"
  by (simp add: numeral_eq_Suc)

lemma to_bytes_loop_unfold:
  "to_bytes_loop n num bytes =
     (if n = 0 then bytes else to_bytes_loop (n - 1) (drop_bit 8 num) ((num AND 0xFF) # bytes))"
  by (cases n) simp_all

lemma bigint_to_bytes_0: "bigint_to_bytes 0 = replicate 16 0"
  by (simp add: bigint_to_bytes_def to_bytes_loop_unfold replicate_16)

lemma bytes_to_bigint_zeros: "bytes_to_bigint (replicate 16 0) = 0"
  by (simp add: bytes_to_bigint_be_value) (simp add: replicate_16)

lemma bytes_to_bigint_ffs: "bytes_to_bigint (replicate 16 0xFF) = MAX_UUID"
  by (simp add: bytes_to_bigint_be_value) (simp add: replicate_16 MAX_UUID_def)

lemma encode_zeros: "encode (replicate 16 0) = Inr (replicate 22 (of_char CHR ''1''))"
  by (simp add: encode_def bytes_to_bigint_zeros to_base58.simps pad_left.simps
      alphabet_at_def ALPHABET_eq replicate_22)

lemma decode_ones: "decode (replicate 22 (of_char CHR ''1'')) = Inr (replicate 16 0)"
proof -
  have "decode_loop (replicate 22 (of_char CHR ''1'')) 0 0 = Inr 0"
    by (simp add: REVERSE_ALPHABET_49 BASE58_def MAX_UUID_def replicate_22)
  then show ?thesis
    by (simp add: decode_def bigint_to_bytes_0)
qed

lemma encode_ffs: "encode (replicate 16 0xFF) = Inr (js ''YcVfxkQb6JRzqk5kF2tNLv'')"
  by (simp add: encode_def bytes_to_bigint_ffs MAX_UUID_def to_base58.simps pad_left.simps
      alphabet_at_def ALPHABET_eq BASE58_def)

lemma decode_zs: "decode (replicate 22 (of_char CHR ''z'')) = Inl OverflowError"
proof -
  have "decode_loop (replicate 22 (of_char CHR ''z'')) 0 0 = Inl OverflowError"
    by (simp add: REVERSE_ALPHABET_122 BASE58_def MAX_UUID_def replicate_22)
  then show ?thesis
    by (simp add: decode_def)
qed

section \<open>The decode loop, one step at a time\<close>

lemma digit_of_symbol:
  assumes "d < 58"
  shows "ALPHABET ! d \<in> set ALPHABET" "digit_of (ALPHABET ! d) = d"
proof -
  show "ALPHABET ! d \<in> set ALPHABET"
    using assms by (simp add: length_ALPHABET)
  have "unat (of_nat d :: byte) = d"
    using assms by (simp add: unat_of_nat)
  then show "digit_of (ALPHABET ! d) = d"
    using assms by (simp add: digit_of_def REVERSE_ALPHABET_symbol)
qed

lemma symbol_digit_of:
  assumes "c \<in> set ALPHABET"
  shows "digit_of c < 58" "ALPHABET ! digit_of c = c"
proof -
  obtain d where d: "d < 58" "c = ALPHABET ! d"
    using assms by (auto simp: in_set_conv_nth length_ALPHABET)
  then show "digit_of c < 58" "ALPHABET ! digit_of c = c"
    by (simp_all add: digit_of_symbol)
qed

lemma lookup_symbol:
  assumes "c \<in> set ALPHABET"
  shows "\<not> 255 < unat c" "REVERSE_ALPHABET ! unat c \<noteq> 255"
    "uint (REVERSE_ALPHABET ! unat c) = int (digit_of c)"
proof -
  show "\<not> 255 < unat c"
    using unat_ALPHABET_le [OF assms] by simp
  have "unat (REVERSE_ALPHABET ! unat c) < 58"
    using symbol_digit_of(1) [OF assms] by (simp add: digit_of_def)
  then show "REVERSE_ALPHABET ! unat c \<noteq> 255"
    by auto
  show "uint (REVERSE_ALPHABET ! unat c) = int (digit_of c)"
    by (simp add: digit_of_def)
qed

lemma decode_loop_symbol:
  assumes "c \<in> set ALPHABET"
  shows "decode_loop (c # cs) i num =
    (if MAX_UUID < num * 58 + int (digit_of c) then Inl OverflowError
     else decode_loop cs (i + 1) (num * 58 + int (digit_of c)))"
  by (simp add: lookup_symbol [OF assms] BASE58_def Let_def)

lemma decode_loop_other:
  assumes "c \<notin> set ALPHABET"
  shows "decode_loop (c # cs) i num =
    Inl (if 255 < unat c then CharCodeError i c else Base58CharError i c)"
  using REVERSE_ALPHABET_other [OF assms] by (simp add: Let_def)

lemma decode_loop_append:
  "decode_loop (xs @ ys) i num =
    (case decode_loop xs i num of
       Inl e \<Rightarrow> Inl e
     | Inr v \<Rightarrow> decode_loop ys (i + length xs) v)"
proof (induction xs arbitrary: i num)
  case Nil
  then show ?case by simp
next
  case (Cons c xs)
  show ?case
  proof (cases "c \<in> set ALPHABET")
    case True
    then show ?thesis
      by (simp add: decode_loop_symbol Cons del: decode_loop.simps split: sum.splits)
  next
    case False
    then show ?thesis
      by (simp add: decode_loop_other del: decode_loop.simps)
  qed
qed

lemma concat_alphabet_at:
  "\<forall>d\<in>set ds. d < 58 \<Longrightarrow> concat (map alphabet_at ds) = map (\<lambda>d. ALPHABET ! d) ds"
  by (induction ds) (simp_all add: alphabet_at_def length_ALPHABET)

section \<open>Both loops in terms of digits\<close>

lemma MAX_UUID_less: "MAX_UUID < 58 ^ 22" "MAX_UUID + 1 = 256 ^ 16" "58 ^ 21 \<le> MAX_UUID"
  by (simp_all add: MAX_UUID_def)

lemma encode_digits:
  assumes "length data = 16"
  shows "\<exists>ds. encode data = Inr (map (\<lambda>d. ALPHABET ! d) ds) \<and> length ds = 22 \<and>
    (\<forall>d\<in>set ds. d < 58) \<and> digits_value 0 ds = bytes_to_bigint data"
proof -
  define v where "v = bytes_to_bigint data"
  define raw where "raw = rev (to_base58 v [])"
  define ds where "ds = pad_left raw"
  have v: "0 \<le> v" "v < 58 ^ 22"
  proof -
    have "v = be_value 0 data"
      by (simp add: v_def bytes_to_bigint_be_value assms)
    then show "0 \<le> v"
      by (simp add: be_value_nonneg)
    have "v < 256 ^ 16"
      using be_value_less [of data] \<open>v = be_value 0 data\<close> assms by simp
    then show "v < 58 ^ 22"
      using MAX_UUID_less(1,2) by linarith
  qed
  have raw: "length raw \<le> 22" "\<forall>d\<in>set raw. d < 58" "digits_value 0 raw = v"
    using to_base58_length [OF v(2)] to_base58_digits [of v] to_base58_value [OF v(1)]
    by (simp_all add: raw_def)
  have ds: "ds = replicate (22 - length raw) 0 @ raw"
    by (simp add: ds_def pad_left_eq)
  have 1: "length ds = 22"
    using raw(1) by (simp add: ds)
  have 2: "\<forall>d\<in>set ds. d < 58"
    using raw(2) by (auto simp: ds)
  have 3: "digits_value 0 ds = v"
    using raw(3) by (simp add: ds digits_value_zeros)
  have "encode data = Inr (concat (map alphabet_at ds))"
    by (simp add: encode_def assms ds_def raw_def v_def)
  then have "encode data = Inr (map (\<lambda>d. ALPHABET ! d) ds)"
    by (simp add: concat_alphabet_at [OF 2])
  with 1 2 3 show ?thesis
    unfolding v_def by blast
qed

lemma decode_loop_symbols:
  assumes "set s \<subseteq> set ALPHABET" "0 \<le> num"
  shows "decode_loop s i num =
    (if s \<noteq> [] \<and> MAX_UUID < digits_value num (map digit_of s) then Inl OverflowError
     else Inr (digits_value num (map digit_of s)))"
  using assms
proof (induction s arbitrary: i num)
  case Nil
  then show ?case by simp
next
  case (Cons c cs)
  define num' where "num' = num * 58 + int (digit_of c)"
  have c: "c \<in> set ALPHABET" and cs: "set cs \<subseteq> set ALPHABET"
    using Cons.prems(1) by simp_all
  have num': "0 \<le> num'"
    using Cons.prems(2) by (simp add: num'_def)
  have step: "decode_loop (c # cs) i num =
      (if MAX_UUID < num' then Inl OverflowError else decode_loop cs (i + 1) num')"
    by (simp add: decode_loop_symbol [OF c] num'_def del: decode_loop.simps)
  have dv: "digits_value num (map digit_of (c # cs)) = digits_value num' (map digit_of cs)"
    by (simp add: num'_def)
  show ?case
  proof (cases "MAX_UUID < num'")
    case True
    have "num' \<le> digits_value num' (map digit_of cs)"
      using num' by (rule digits_value_mono)
    with True show ?thesis
      unfolding step dv by simp
  next
    case False
    show ?thesis
      unfolding step dv using False Cons.IH [OF cs num', of "i + 1"]
      by (cases cs) simp_all
  qed
qed

lemma decode_loop_Inr_symbols:
  "decode_loop s i num = Inr v \<Longrightarrow> set s \<subseteq> set ALPHABET"
proof (induction s arbitrary: i num)
  case Nil
  then show ?case by simp
next
  case (Cons c cs)
  show ?case
  proof (cases "c \<in> set ALPHABET")
    case True
    then show ?thesis
      using Cons.prems Cons.IH
      by (auto simp: decode_loop_symbol simp del: decode_loop.simps split: if_splits)
  next
    case False
    then show ?thesis
      using Cons.prems by (simp add: decode_loop_other del: decode_loop.simps)
  qed
qed

lemma decode_Inr_iff:
  "decode s = Inr data \<longleftrightarrow>
     length s = 22 \<and> set s \<subseteq> set ALPHABET \<and>
     digits_value 0 (map digit_of s) \<le> MAX_UUID \<and>
     data = bigint_to_bytes (digits_value 0 (map digit_of s))"
proof (cases "length s = 22")
  case len: True
  then have ne: "s \<noteq> []" by auto
  show ?thesis
  proof (cases "set s \<subseteq> set ALPHABET")
    case True
    show ?thesis
      using len ne True decode_loop_symbols [OF True, of 0 0]
      by (auto simp: decode_def)
  next
    case False
    then have "\<And>v. decode_loop s 0 0 \<noteq> Inr v"
      using decode_loop_Inr_symbols by blast
    then show ?thesis
      using False len ne by (auto simp: decode_def split: sum.splits)
  qed
next
  case False
  then show ?thesis
    by (auto simp: decode_def)
qed

lemma map_symbol_digit_of:
  "set s \<subseteq> set ALPHABET \<Longrightarrow> map (\<lambda>d. ALPHABET ! d) (map digit_of s) = s"
  by (induction s) (simp_all add: symbol_digit_of)

lemma map_digit_of_symbol:
  "\<forall>d\<in>set ds. d < 58 \<Longrightarrow> map digit_of (map (\<lambda>d. ALPHABET ! d) ds) = ds"
  by (induction ds) (simp_all add: digit_of_symbol)

lemma set_map_symbol:
  "\<forall>d\<in>set ds. d < 58 \<Longrightarrow> set (map (\<lambda>d. ALPHABET ! d) ds) \<subseteq> set ALPHABET"
  by (auto simp: digit_of_symbol)

lemma decode_encode:
  assumes "length data = 16"
  shows "\<exists>s. encode data = Inr s \<and> decode s = Inr data"
proof -
  obtain ds where ds: "encode data = Inr (map (\<lambda>d. ALPHABET ! d) ds)" "length ds = 22"
      "\<forall>d\<in>set ds. d < 58" "digits_value 0 ds = bytes_to_bigint data"
    using encode_digits [OF assms] by blast
  define s where "s = map (\<lambda>d. ALPHABET ! d) ds"
  have "bytes_to_bigint data < 256 ^ 16"
    using be_value_less [of data] assms by (simp add: bytes_to_bigint_be_value)
  then have "bytes_to_bigint data \<le> MAX_UUID"
    using MAX_UUID_less(2) by linarith
  moreover have s1: "map digit_of s = ds"
    unfolding s_def by (rule map_digit_of_symbol [OF ds(3)])
  moreover have s2: "set s \<subseteq> set ALPHABET"
    unfolding s_def by (rule set_map_symbol [OF ds(3)])
  moreover have s3: "length s = 22"
    by (simp add: s_def ds(2))
  ultimately have "decode s = Inr (bigint_to_bytes (bytes_to_bigint data))"
    by (simp add: decode_Inr_iff ds(4))
  then have "decode s = Inr data"
    by (simp add: bigint_to_bytes_bytes_to_bigint assms)
  then show ?thesis
    using ds(1) unfolding s_def by blast
qed

section \<open>Numeric order and lexicographic order\<close>

lemma lex_step:
  fixes a b B :: int
  assumes "0 \<le> a" "a < B" "0 \<le> b" "b < B"
  shows "(int x * B + a < int y * B + b) \<longleftrightarrow> (x < y \<or> x = y \<and> a < b)"
proof -
  have less: "int p * B + c < int q * B + d"
    if "p < q" "c < B" "0 \<le> d" for p q :: nat and c d :: int
  proof -
    have "int p + 1 \<le> int q" using that(1) by simp
    then have "(int p + 1) * B \<le> int q * B"
      using assms by (intro mult_right_mono) simp_all
    then show ?thesis
      using that(2,3) by (simp add: algebra_simps)
  qed
  consider "x < y" | "x = y" | "y < x" by linarith
  then show ?thesis
  proof cases
    case 1
    then show ?thesis using less [OF 1 assms(2,3)] by simp
  next
    case 2
    then show ?thesis by simp
  next
    case 3
    then show ?thesis using less [OF 3 assms(4,1)] by simp
  qed
qed

lemma digits_value_less_iff:
  assumes "length xs = length ys" "\<forall>d\<in>set xs. d < 58" "\<forall>d\<in>set ys. d < 58"
  shows "digits_value 0 xs < digits_value 0 ys \<longleftrightarrow> xs < ys"
  using assms
proof (induction xs ys rule: list_induct2)
  case Nil
  then show ?case by simp
next
  case (Cons x xs y ys)
  define B :: int where "B = 58 ^ length xs"
  have a: "0 \<le> digits_value 0 xs" "digits_value 0 xs < B"
    using Cons.prems(1) digits_value_less [of xs] by (simp_all add: digits_value_nonneg B_def)
  have b: "0 \<le> digits_value 0 ys" "digits_value 0 ys < B"
    using Cons.prems(2) Cons.hyps digits_value_less [of ys]
    by (simp_all add: digits_value_nonneg B_def)
  have x: "digits_value 0 (x # xs) = int x * B + digits_value 0 xs"
    using digits_value_shift [of "int x" xs] by (simp add: B_def)
  have y: "digits_value 0 (y # ys) = int y * B + digits_value 0 ys"
    using digits_value_shift [of "int y" ys] Cons.hyps by (simp add: B_def)
  have "digits_value 0 xs < digits_value 0 ys \<longleftrightarrow> xs < ys"
    using Cons.prems by (intro Cons.IH) simp_all
  then show ?case
    unfolding x y lex_step [OF a b] by simp
qed

lemma digits_value_inj:
  assumes "length xs = length ys" "\<forall>d\<in>set xs. d < 58" "\<forall>d\<in>set ys. d < 58"
    "digits_value 0 xs = digits_value 0 ys"
  shows "xs = ys"
proof (rule ccontr)
  assume "xs \<noteq> ys"
  then consider "xs < ys" | "ys < xs" by fastforce
  then show False
  proof cases
    case 1
    then show False
      using digits_value_less_iff [OF assms(1,2,3)] assms(4) by simp
  next
    case 2
    then show False
      using digits_value_less_iff [OF assms(1) [symmetric] assms(3,2)] assms(4) by simp
  qed
qed

lemma map_symbol_less_iff:
  assumes "length xs = length ys" "\<forall>d\<in>set xs. d < 58" "\<forall>d\<in>set ys. d < 58"
  shows "map (\<lambda>d. ALPHABET ! d) xs < map (\<lambda>d. ALPHABET ! d) ys \<longleftrightarrow> xs < ys"
  using assms
proof (induction xs ys rule: list_induct2)
  case Nil
  then show ?case by simp
next
  case (Cons x xs y ys)
  have xy: "x < 58" "y < 58"
    using Cons.prems by simp_all
  have lt: "ALPHABET ! x < ALPHABET ! y \<longleftrightarrow> x < y"
    using ALPHABET_nth_less [of x y] ALPHABET_nth_less [of y x] xy
    by (cases x y rule: linorder_cases) auto
  have eq: "ALPHABET ! x = ALPHABET ! y \<longleftrightarrow> x = y"
    using xy distinct_ALPHABET by (simp add: nth_eq_iff_index_eq length_ALPHABET)
  have "map (\<lambda>d. ALPHABET ! d) xs < map (\<lambda>d. ALPHABET ! d) ys \<longleftrightarrow> xs < ys"
    using Cons.prems by (intro Cons.IH) simp_all
  then show ?case
    by (simp add: lt eq)
qed

lemma encode_decode:
  assumes "decode s = Inr data"
  shows "encode data = Inr s"
proof -
  define v where "v = digits_value 0 (map digit_of s)"
  have s: "length s = 22" "set s \<subseteq> set ALPHABET" "v \<le> MAX_UUID" "data = bigint_to_bytes v"
    using assms by (simp_all add: decode_Inr_iff v_def)
  have "0 \<le> v"
    by (simp add: v_def digits_value_nonneg)
  then have v: "bytes_to_bigint data = v"
    using s(3,4) by (simp add: bytes_to_bigint_bigint_to_bytes)
  have len: "length data = 16"
    by (simp add: s(4) length_bigint_to_bytes)
  obtain ds where ds: "encode data = Inr (map (\<lambda>d. ALPHABET ! d) ds)" "length ds = 22"
      "\<forall>d\<in>set ds. d < 58" "digits_value 0 ds = bytes_to_bigint data"
    using encode_digits [OF len] by blast
  have "\<forall>d\<in>set (map digit_of s). d < 58"
    using s(2) by (auto simp: symbol_digit_of)
  then have "ds = map digit_of s"
    using ds(2,3,4) s(1) v by (intro digits_value_inj) (simp_all add: v_def)
  then show ?thesis
    using ds(1) map_symbol_digit_of [OF s(2)] by simp
qed

lemma encode_less_iff:
  assumes "length a = 16" "length b = 16"
  shows "\<exists>sa sb. encode a = Inr sa \<and> encode b = Inr sb \<and>
    (bytes_to_bigint a < bytes_to_bigint b \<longleftrightarrow> sa < sb)"
proof -
  obtain da where da: "encode a = Inr (map (\<lambda>d. ALPHABET ! d) da)" "length da = 22"
      "\<forall>d\<in>set da. d < 58" "digits_value 0 da = bytes_to_bigint a"
    using encode_digits [OF assms(1)] by blast
  obtain db where db: "encode b = Inr (map (\<lambda>d. ALPHABET ! d) db)" "length db = 22"
      "\<forall>d\<in>set db. d < 58" "digits_value 0 db = bytes_to_bigint b"
    using encode_digits [OF assms(2)] by blast
  have len: "length da = length db"
    by (simp add: da(2) db(2))
  have "bytes_to_bigint a < bytes_to_bigint b \<longleftrightarrow> da < db"
    using digits_value_less_iff [OF len da(3) db(3)] by (simp add: da(4) db(4))
  also have "\<dots> \<longleftrightarrow> map (\<lambda>d. ALPHABET ! d) da < map (\<lambda>d. ALPHABET ! d) db"
    using map_symbol_less_iff [OF len da(3) db(3)] by simp
  finally show ?thesis
    using da(1) db(1) by blast
qed

section \<open>Invalid characters and the overflow check\<close>

lemma decode_loop_short:
  assumes "set xs \<subseteq> set ALPHABET" "length xs \<le> 21"
  shows "decode_loop xs i 0 = Inr (digits_value 0 (map digit_of xs))"
proof -
  have "\<forall>d\<in>set (map digit_of xs). d < 58"
    using assms(1) by (auto simp: symbol_digit_of)
  then have "digits_value 0 (map digit_of xs) < 58 ^ length xs"
    using digits_value_less [of "map digit_of xs"] by simp
  also have "(58::int) ^ length xs \<le> 58 ^ 21"
    using assms(2) by (intro power_increasing) simp_all
  finally have "\<not> MAX_UUID < digits_value 0 (map digit_of xs)"
    using MAX_UUID_less(3) by linarith
  then show ?thesis
    by (simp add: decode_loop_symbols [OF assms(1)])
qed

lemma length_takeWhile_mem:
  "\<not> set s \<subseteq> A \<Longrightarrow> length (takeWhile (\<lambda>c. c \<in> A) s) < length s"
  by (induction s) auto

lemma split_at_first_bad:
  assumes "\<not> set s \<subseteq> set ALPHABET"
  defines "i \<equiv> length (takeWhile (\<lambda>c. c \<in> set ALPHABET) s)"
  shows "i < length s" "s ! i \<notin> set ALPHABET" "\<forall>j<i. s ! j \<in> set ALPHABET"
    "s = take i s @ s ! i # drop (Suc i) s" "set (take i s) \<subseteq> set ALPHABET"
proof -
  let ?P = "\<lambda>c. c \<in> set ALPHABET"
  show i: "i < length s"
    unfolding i_def using assms(1) by (rule length_takeWhile_mem)
  show "s ! i \<notin> set ALPHABET"
    unfolding i_def using i nth_length_takeWhile [of ?P s] by (simp add: i_def)
  show "\<forall>j<i. s ! j \<in> set ALPHABET"
    unfolding i_def using takeWhile_nth [of _ ?P s] set_takeWhileD [of _ ?P s]
    by (metis nth_mem)
  show "s = take i s @ s ! i # drop (Suc i) s"
    using i by (simp add: id_take_nth_drop [symmetric])
  have "take i s = takeWhile ?P s"
    unfolding i_def by (metis takeWhile_eq_take)
  then show "set (take i s) \<subseteq> set ALPHABET"
    by (auto dest: set_takeWhileD)
qed

lemma decode_loop_first_bad:
  assumes "\<not> set s \<subseteq> set ALPHABET" "length s \<le> 22"
  defines "i \<equiv> length (takeWhile (\<lambda>c. c \<in> set ALPHABET) s)"
  shows "decode_loop s 0 0 =
    Inl (if 255 < unat (s ! i) then CharCodeError i (s ! i) else Base58CharError i (s ! i))"
proof -
  note sp = split_at_first_bad [OF assms(1), folded i_def]
  have "length (take i s) \<le> 21"
    using sp(1) assms(2) by simp
  then have pre: "decode_loop (take i s) 0 0 = Inr (digits_value 0 (map digit_of (take i s)))"
    using sp(5) by (intro decode_loop_short)
  have len: "length (take i s) = i"
    using sp(1) by simp
  have "decode_loop s 0 0 = decode_loop (take i s @ s ! i # drop (Suc i) s) 0 0"
    using sp(4) by simp
  also have "\<dots> = Inl (if 255 < unat (s ! i) then CharCodeError i (s ! i)
      else Base58CharError i (s ! i))"
    unfolding decode_loop_append pre
    using decode_loop_other [OF sp(2)] len by (simp del: decode_loop.simps)
  finally show ?thesis .
qed

lemma no_early_overflow:
  assumes "length xs \<le> 21"
  shows "decode_loop xs 0 0 \<noteq> Inl OverflowError"
proof (cases "set xs \<subseteq> set ALPHABET")
  case True
  then show ?thesis
    using decode_loop_short [OF True assms] by simp
next
  case False
  then show ?thesis
    using decode_loop_first_bad [OF False] assms by simp
qed

lemma decode_loop_snoc:
  "decode_loop (xs @ c # ys) i num =
     (case decode_loop xs i num of
        Inl e \<Rightarrow> Inl e
      | Inr v \<Rightarrow>
          if c \<notin> set ALPHABET
          then Inl (if 255 < unat c then CharCodeError (i + length xs) c
                    else Base58CharError (i + length xs) c)
          else if MAX_UUID < v * BASE58 + uint (REVERSE_ALPHABET ! unat c)
          then Inl OverflowError
          else decode_loop ys (i + length xs + 1)
                 (v * BASE58 + uint (REVERSE_ALPHABET ! unat c)))"
proof (cases "c \<in> set ALPHABET")
  case True
  then show ?thesis
    unfolding decode_loop_append
    by (simp add: decode_loop_symbol lookup_symbol(3) BASE58_def del: decode_loop.simps
        split: sum.splits)
next
  case False
  then show ?thesis
    unfolding decode_loop_append
    by (simp add: decode_loop_other del: decode_loop.simps split: sum.splits)
qed

lemma decode_overflow_last:
  assumes "decode s = Inl OverflowError"
  shows "length s = 22" "set s \<subseteq> set ALPHABET"
    "\<exists>v. decode_loop (butlast s) 0 0 = Inr v \<and>
       MAX_UUID < v * BASE58 + uint (REVERSE_ALPHABET ! unat (last s))"
proof -
  show len: "length s = 22"
    using assms by (auto simp: decode_def split: if_splits)
  then have ne: "s \<noteq> []" by auto
  have loop: "decode_loop s 0 0 = Inl OverflowError"
    using assms len ne by (simp add: decode_def split: sum.splits)
  show sym: "set s \<subseteq> set ALPHABET"
  proof (rule ccontr)
    assume "\<not> set s \<subseteq> set ALPHABET"
    from decode_loop_first_bad [OF this] len loop show False
      by (simp split: if_splits)
  qed
  have s: "s = butlast s @ last s # []"
    using ne by simp
  have "set (butlast s) \<subseteq> set ALPHABET"
    using sym by (auto dest: in_set_butlastD)
  moreover have "length (butlast s) \<le> 21"
    using len by simp
  ultimately obtain v where v: "decode_loop (butlast s) 0 0 = Inr v"
    using decode_loop_short by blast
  have "last s \<in> set ALPHABET"
    using sym ne by auto
  then have "MAX_UUID < v * BASE58 + uint (REVERSE_ALPHABET ! unat (last s))"
    using loop decode_loop_snoc [of "butlast s" "last s" "[]" 0 0] s v
    by (simp split: if_splits)
  with v show "\<exists>v. decode_loop (butlast s) 0 0 = Inr v \<and>
       MAX_UUID < v * BASE58 + uint (REVERSE_ALPHABET ! unat (last s))"
    by blast
qed

section \<open>Test vectors\<close>

text \<open>
  Claim C6 (zero vector). Encoding the buffer of sixteen zero bytes gives the string of
  22 copies of \<open>1\<close>, the symbol at index 0 of the alphabet, and decoding 22 copies of
  \<open>1\<close> succeeds with the buffer of sixteen zero bytes.
\<close>

theorem zero_vector:
  "encode (replicate 16 0) = Inr (replicate 22 (of_char CHR ''1'')) \<and>
   decode (replicate 22 (of_char CHR ''1'')) = Inr (replicate 16 0) \<and>
   ALPHABET ! 0 = of_char CHR ''1''"
  using encode_zeros decode_ones by (simp add: ALPHABET_eq)

text \<open>
  Claim C7 (max vector). Encoding the buffer of sixteen bytes \<open>0xFF\<close>, the value
  \<open>2^128 - 1\<close>, gives exactly \<open>YcVfxkQb6JRzqk5kF2tNLv\<close>.
\<close>

theorem max_vector:
  "encode (replicate 16 0xFF) = Inr (js ''YcVfxkQb6JRzqk5kF2tNLv'') \<and>
   bytes_to_bigint (replicate 16 0xFF) = 2 ^ 128 - 1"
  using encode_ffs bytes_to_bigint_ffs by (simp add: MAX_UUID_def)

text \<open>
  Claim C8 (overflow rejection vector). Decoding 22 copies of \<open>z\<close>, the symbol of
  digit value 57, fails with the overflow error: neither another failure nor a success.
\<close>

theorem overflow_vector:
  "decode (replicate 22 (of_char CHR ''z'')) = Inl OverflowError \<and>
   kind OverflowError = Overflow \<and> ALPHABET ! 57 = of_char CHR ''z''"
  using decode_zs by (simp add: ALPHABET_eq)

section \<open>The order of the checks in decode\<close>

text \<open>
  Claim C5 (fail-fast ordering of decode). The empty string fails with the
  \<open>InvalidFormat\<close> error; every non-empty string whose length is not 22 fails with the
  \<open>InvalidLength\<close> error carrying that length, whatever its characters are: the length
  is checked before any character is examined and before any overflow check.
\<close>

theorem decode_length_first:
  "decode [] = Inl EmptyError \<and> kind EmptyError = InvalidFormat \<and>
   (s \<noteq> [] \<and> length s \<noteq> 22 \<longrightarrow>
      decode s = Inl (LengthError (length s)) \<and> kind (LengthError (length s)) = InvalidLength)"
  by (simp add: decode_def)

theorem decode_length_first_witness:
  "js ''0O'' \<noteq> [] \<and> length (js ''0O'') \<noteq> 22 \<and> decode (js ''0O'') = Inl (LengthError 2)
   \<and> \<not> set (js ''0O'') \<subseteq> set ALPHABET"
  using decode_length_first [of "js ''0O''"] by (simp add: ALPHABET_eq)

section \<open>The contract of encode\<close>

text \<open>
  Claim C2 (encode contract). \<open>encode\<close> fails exactly when its input is not 16 bytes
  long, and then with the \<open>InvalidLength\<close> error carrying the length; on every
  16-byte input it returns a string of exactly 22 characters, each of them one of the
  58 distinct symbols of the alphabet.
\<close>

theorem encode_contract:
  "(isl (encode data) \<longleftrightarrow> length data \<noteq> 16) \<and>
   (length data \<noteq> 16 \<longrightarrow>
      encode data = Inl (InputLengthError (length data)) \<and>
      kind (InputLengthError (length data)) = InvalidLength) \<and>
   (length data = 16 \<longrightarrow>
      (\<exists>s. encode data = Inr s \<and> length s = 22 \<and> set s \<subseteq> set ALPHABET)) \<and>
   length ALPHABET = 58 \<and> distinct ALPHABET"
proof (cases "length data = 16")
  case True
  obtain ds where ds: "encode data = Inr (map (\<lambda>d. ALPHABET ! d) ds)" "length ds = 22"
      "\<forall>d\<in>set ds. d < 58"
    using encode_digits [OF True] by blast
  have "set (map (\<lambda>d. ALPHABET ! d) ds) \<subseteq> set ALPHABET"
    by (rule set_map_symbol [OF ds(3)])
  then show ?thesis
    using True ds(1,2) by (simp add: length_ALPHABET distinct_ALPHABET)
next
  case False
  then show ?thesis
    by (simp add: encode_def length_ALPHABET distinct_ALPHABET)
qed

theorem encode_contract_witness:
  "length ([] :: byte list) \<noteq> 16 \<and> encode [] = Inl (InputLengthError 0) \<and>
   length (replicate 16 (0::byte)) = 16 \<and>
   length (replicate 22 (of_char CHR ''1'' :: code_unit)) = 22 \<and>
   set (replicate 22 (of_char CHR ''1'')) \<subseteq> set ALPHABET"
  using encode_contract [of "[]"] encode_contract [of "replicate 16 0"] encode_zeros
  by simp

section \<open>Round trips\<close>

text \<open>
  Claim C1 (round trip). For every 16-byte buffer, decoding its encoding returns the
  same buffer. Every 128-bit unsigned value \<open>v\<close> has such a buffer,
  \<open>bigint_to_bytes v\<close>, whose big-endian value is \<open>v\<close>, so decoding the encoding of
  \<open>bigint_to_bytes v\<close> returns \<open>bigint_to_bytes v\<close>.
\<close>

theorem round_trip:
  "(length data = 16 \<longrightarrow> (\<exists>s. encode data = Inr s \<and> decode s = Inr data)) \<and>
   (0 \<le> v \<and> v \<le> MAX_UUID \<longrightarrow>
      length (bigint_to_bytes v) = 16 \<and> bytes_to_bigint (bigint_to_bytes v) = v \<and>
      (\<exists>s. encode (bigint_to_bytes v) = Inr s \<and> decode s = Inr (bigint_to_bytes v)))"
  using decode_encode [of data] decode_encode [OF length_bigint_to_bytes, of v]
  by (simp add: length_bigint_to_bytes bytes_to_bigint_bigint_to_bytes)

theorem round_trip_witness:
  "length (replicate 16 (0xFF::byte)) = 16 \<and> (0::int) \<le> 1 \<and> 1 \<le> MAX_UUID \<and>
   decode (js ''YcVfxkQb6JRzqk5kF2tNLv'') = Inr (replicate 16 0xFF) \<and>
   bytes_to_bigint (bigint_to_bytes 1) = 1"
  using round_trip [of "replicate 16 0xFF" 1] encode_ffs
  by (simp add: MAX_UUID_def)

text \<open>
  Claim C9 (inverse round trip). Whenever \<open>decode\<close> succeeds on a string, encoding
  its result gives that string back; so two accepted strings with the same result are
  equal, and \<open>decode\<close> is a bijection between the strings it accepts and the
  16-byte buffers.
\<close>

theorem inverse_round_trip:
  "(decode s = Inr data \<longrightarrow> encode data = Inr s) \<and>
   (decode s = Inr data \<and> decode s' = Inr data \<longrightarrow> s = s') \<and>
   bij_betw (\<lambda>s. projr (decode s)) {s. \<not> isl (decode s)} {data. length data = 16}"
proof (intro conjI impI)
  show "encode data = Inr s" if "decode s = Inr data"
    using that by (rule encode_decode)
  show "s = s'" if "decode s = Inr data \<and> decode s' = Inr data"
    using that encode_decode [of s data] encode_decode [of s' data] by simp
  show "bij_betw (\<lambda>s. projr (decode s)) {s. \<not> isl (decode s)} {data. length data = 16}"
    unfolding bij_betw_def
  proof
    show "inj_on (\<lambda>s. projr (decode s)) {s. \<not> isl (decode s)}"
    proof (rule inj_onI)
      fix x y
      assume "x \<in> {s. \<not> isl (decode s)}" "y \<in> {s. \<not> isl (decode s)}"
        "projr (decode x) = projr (decode y)"
      then obtain d where "decode x = Inr d" "decode y = Inr d"
        by (cases "decode x"; cases "decode y") simp_all
      then show "x = y"
        using encode_decode [of x d] encode_decode [of y d] by simp
    qed
    show "(\<lambda>s. projr (decode s)) ` {s. \<not> isl (decode s)} = {data. length data = 16}"
    proof (intro set_eqI iffI)
      fix d
      assume "d \<in> (\<lambda>s. projr (decode s)) ` {s. \<not> isl (decode s)}"
      then obtain x where "decode x = Inr d"
        by (auto simp: image_iff)
      then show "d \<in> {data. length data = 16}"
        by (simp add: decode_Inr_iff length_bigint_to_bytes)
    next
      fix d :: "byte list"
      assume "d \<in> {data. length data = 16}"
      then obtain x where "decode x = Inr d"
        using decode_encode [of d] by auto
      then show "d \<in> (\<lambda>s. projr (decode s)) ` {s. \<not> isl (decode s)}"
        by (intro image_eqI [of _ _ x]) simp_all
    qed
  qed
qed

theorem inverse_round_trip_witness:
  "decode (replicate 22 (of_char CHR ''1'')) = Inr (replicate 16 0) \<and>
   encode (replicate 16 0) = Inr (replicate 22 (of_char CHR ''1''))"
  using inverse_round_trip [of "replicate 22 (of_char CHR ''1'')" "replicate 16 0", THEN conjunct1]
    decode_ones
  by simp

section \<open>Order preservation\<close>

text \<open>
  Claim C10 (order preservation). The symbols of the alphabet are in strictly
  increasing order of their character codes, and for two 16-byte buffers \<open>a\<close> and
  \<open>b\<close> the big-endian value of \<open>a\<close> is less than that of \<open>b\<close> exactly when
  \<open>encode a\<close> comes before \<open>encode b\<close> in the lexicographic order of the code units.
\<close>

theorem encode_strictly_monotone:
  "sorted_wrt (<) ALPHABET \<and>
   (length a = 16 \<and> length b = 16 \<longrightarrow>
      (\<exists>sa sb. encode a = Inr sa \<and> encode b = Inr sb \<and> length sa = 22 \<and> length sb = 22 \<and>
         (bytes_to_bigint a < bytes_to_bigint b \<longleftrightarrow> sa < sb)))"
proof
  show "sorted_wrt (<) ALPHABET"
    using ALPHABET_nth_less by (simp add: sorted_wrt_iff_nth_less length_ALPHABET)
  show "length a = 16 \<and> length b = 16 \<longrightarrow>
      (\<exists>sa sb. encode a = Inr sa \<and> encode b = Inr sb \<and> length sa = 22 \<and> length sb = 22 \<and>
         (bytes_to_bigint a < bytes_to_bigint b \<longleftrightarrow> sa < sb))"
  proof
    assume len: "length a = 16 \<and> length b = 16"
    obtain sa sb where s: "encode a = Inr sa" "encode b = Inr sb"
        "bytes_to_bigint a < bytes_to_bigint b \<longleftrightarrow> sa < sb"
      using encode_less_iff [of a b] len by blast
    obtain da where "encode a = Inr (map (\<lambda>d. ALPHABET ! d) da)" "length da = 22"
      using encode_digits [of a] len by blast
    then have la: "length sa = 22" using s(1) by auto
    obtain db where "encode b = Inr (map (\<lambda>d. ALPHABET ! d) db)" "length db = 22"
      using encode_digits [of b] len by blast
    then have lb: "length sb = 22" using s(2) by auto
    show "\<exists>sa sb. encode a = Inr sa \<and> encode b = Inr sb \<and> length sa = 22 \<and>
        length sb = 22 \<and> (bytes_to_bigint a < bytes_to_bigint b \<longleftrightarrow> sa < sb)"
      using s la lb by blast
  qed
qed

theorem encode_strictly_monotone_witness:
  "length (replicate 16 (0::byte)) = 16 \<and> length (replicate 16 (0xFF::byte)) = 16 \<and>
   bytes_to_bigint (replicate 16 0) < bytes_to_bigint (replicate 16 0xFF) \<and>
   replicate 22 (of_char CHR ''1'') < js ''YcVfxkQb6JRzqk5kF2tNLv''"
  using encode_strictly_monotone [of "replicate 16 0" "replicate 16 0xFF", THEN conjunct2]
    encode_zeros encode_ffs bytes_to_bigint_zeros bytes_to_bigint_ffs
  by (simp add: MAX_UUID_def)

section \<open>Invalid characters\<close>

text \<open>
  Claim C4 (invalid-character rejection). A 22-character input with at least one
  character outside the alphabet fails with the \<open>InvalidCharacter\<close> error that carries
  the first such character and its position: no overflow error comes first and the
  character is not read as a digit. The characters \<open>0\<close>, \<open>O\<close>, \<open>I\<close> and \<open>l\<close> and
  every character code above 255 are outside the alphabet.
\<close>

theorem invalid_character_rejected:
  "(length s = 22 \<and> \<not> set s \<subseteq> set ALPHABET \<longrightarrow>
      (\<exists>i e. i < 22 \<and> s ! i \<notin> set ALPHABET \<and> (\<forall>j<i. s ! j \<in> set ALPHABET) \<and>
         e = (if 255 < unat (s ! i) then CharCodeError i (s ! i)
              else Base58CharError i (s ! i)) \<and>
         decode s = Inl e \<and> kind e = InvalidCharacter)) \<and>
   set (js ''0OIl'') \<inter> set ALPHABET = {} \<and>
   (255 < unat c \<longrightarrow> c \<notin> set ALPHABET)"
proof (intro conjI impI)
  assume a: "length s = 22 \<and> \<not> set s \<subseteq> set ALPHABET"
  then have bad: "\<not> set s \<subseteq> set ALPHABET" and len: "length s = 22" "s \<noteq> []"
    by auto
  define i where "i = length (takeWhile (\<lambda>c. c \<in> set ALPHABET) s)"
  define e where "e = (if 255 < unat (s ! i) then CharCodeError i (s ! i)
              else Base58CharError i (s ! i))"
  note sp = split_at_first_bad [OF bad, folded i_def]
  have "decode_loop s 0 0 = Inl e"
    using decode_loop_first_bad [OF bad] len(1) by (simp add: i_def e_def)
  then have "decode s = Inl e"
    using len by (simp add: decode_def)
  moreover have "kind e = InvalidCharacter"
    by (simp add: e_def)
  ultimately show "\<exists>i e. i < 22 \<and> s ! i \<notin> set ALPHABET \<and> (\<forall>j<i. s ! j \<in> set ALPHABET) \<and>
         e = (if 255 < unat (s ! i) then CharCodeError i (s ! i)
              else Base58CharError i (s ! i)) \<and>
         decode s = Inl e \<and> kind e = InvalidCharacter"
    using sp(1,2,3) len(1) e_def by (intro exI [of _ i] exI [of _ e]) simp
next
  show "set (js ''0OIl'') \<inter> set ALPHABET = {}"
    by (simp add: ALPHABET_eq)
next
  assume "255 < unat c"
  then show "c \<notin> set ALPHABET"
    using unat_ALPHABET_le [of c] by auto
qed

lemma decode_zs_0:
  "decode (js ''zzzzzzzzzzzzzzzzzzzzz0'') = Inl (Base58CharError 21 (of_char CHR ''0''))"
proof -
  have "REVERSE_ALPHABET ! 48 = 255"
    using REVERSE_ALPHABET_other [of 48] by (simp add: ALPHABET_eq)
  then have "decode_loop (js ''zzzzzzzzzzzzzzzzzzzzz0'') 0 0
      = Inl (Base58CharError 21 (of_char CHR ''0''))"
    by (simp add: REVERSE_ALPHABET_122 BASE58_def MAX_UUID_def)
  then show ?thesis
    by (simp add: decode_def)
qed

theorem invalid_character_rejected_witness:
  "length (js ''zzzzzzzzzzzzzzzzzzzzz0'') = 22 \<and>
   \<not> set (js ''zzzzzzzzzzzzzzzzzzzzz0'') \<subseteq> set ALPHABET \<and>
   255 < unat (300 :: code_unit) \<and> (300 :: code_unit) \<notin> set ALPHABET \<and>
   (\<exists>e. decode (js ''zzzzzzzzzzzzzzzzzzzzz0'') = Inl e \<and> kind e = InvalidCharacter) \<and>
   decode (js ''zzzzzzzzzzzzzzzzzzzzz0'') = Inl (Base58CharError 21 (of_char CHR ''0''))"
proof -
  have h: "length (js ''zzzzzzzzzzzzzzzzzzzzz0'') = 22 \<and>
      \<not> set (js ''zzzzzzzzzzzzzzzzzzzzz0'') \<subseteq> set ALPHABET"
    by (simp add: ALPHABET_eq)
  have c: "255 < unat (300 :: code_unit)"
    by simp
  from invalid_character_rejected [of "js ''zzzzzzzzzzzzzzzzzzzzz0''" 300] h c decode_zs_0
  show ?thesis
    by blast
qed

section \<open>The time of the overflow check\<close>

text \<open>
  Claim C3 (overflow timing), second part as stated: some 22-character input of
  alphabet symbols makes the overflow failure trigger before all 22 characters have
  been consumed, that is, the loop already fails with the overflow error on the first
  \<open>n\<close> characters for some \<open>n < 22\<close>. No such input exists: 21 digits stay below
  \<open>58^21\<close>, which is less than \<open>2^128\<close>.
\<close>

theorem overflow_before_end_counterexample:
  "\<not> (\<exists>s n. length s = 22 \<and> set s \<subseteq> set ALPHABET \<and> n < 22 \<and>
        decode_loop (take n s) 0 0 = Inl OverflowError)"
proof
  assume "\<exists>s n. length s = 22 \<and> set s \<subseteq> set ALPHABET \<and> n < 22 \<and>
        decode_loop (take n s) 0 0 = Inl OverflowError"
  then obtain s n where "n < 22" "decode_loop (take n s) 0 0 = Inl OverflowError"
    by blast
  moreover have "length (take n s) \<le> 21"
    using \<open>n < 22\<close> by simp
  ultimately show False
    using no_early_overflow by blast
qed

text \<open>
  Claim C3 (overflow timing), amended. In the loop of \<open>decode\<close> every multiply-add
  is followed at once by the comparison with \<open>2^128 - 1\<close>: after a prefix \<open>xs\<close> has
  been consumed with running value \<open>v\<close>, the next alphabet symbol either makes the loop
  fail with the overflow error, whatever follows it, or becomes part of the running
  value. On at most 21 characters the loop never fails with the overflow error, so
  when \<open>decode\<close> fails with it, the input has 22 alphabet symbols, the first 21 were
  consumed without failure and the check fails at the last one.
\<close>

theorem overflow_timing:
  "decode_loop (xs @ c # ys) i num =
     (case decode_loop xs i num of
        Inl e \<Rightarrow> Inl e
      | Inr v \<Rightarrow>
          if c \<notin> set ALPHABET
          then Inl (if 255 < unat c then CharCodeError (i + length xs) c
                    else Base58CharError (i + length xs) c)
          else if MAX_UUID < v * BASE58 + uint (REVERSE_ALPHABET ! unat c)
          then Inl OverflowError
          else decode_loop ys (i + length xs + 1)
                 (v * BASE58 + uint (REVERSE_ALPHABET ! unat c))) \<and>
   (length xs \<le> 21 \<longrightarrow> decode_loop xs 0 0 \<noteq> Inl OverflowError) \<and>
   (decode s = Inl OverflowError \<longrightarrow>
      length s = 22 \<and> set s \<subseteq> set ALPHABET \<and>
      (\<exists>v. decode_loop (butlast s) 0 0 = Inr v \<and>
         MAX_UUID < v * BASE58 + uint (REVERSE_ALPHABET ! unat (last s))))"
  using decode_loop_snoc [of xs c ys i num] no_early_overflow [of xs]
    decode_overflow_last [of s]
  by blast

theorem overflow_timing_witness:
  "length (replicate 21 (of_char CHR ''z'' :: code_unit)) \<le> 21 \<and>
   decode_loop (replicate 21 (of_char CHR ''z'')) 0 0 \<noteq> Inl OverflowError \<and>
   decode (replicate 22 (of_char CHR ''z'')) = Inl OverflowError \<and>
   (\<exists>v. decode_loop (butlast (replicate 22 (of_char CHR ''z''))) 0 0 = Inr v \<and>
      MAX_UUID < v * BASE58 + uint (REVERSE_ALPHABET ! unat (last (replicate 22 (of_char CHR ''z'' :: code_unit)))))"
proof -
  have h: "length (replicate 21 (of_char CHR ''z'' :: code_unit)) \<le> 21"
    by simp
  from overflow_timing [of "replicate 21 (of_char CHR ''z'')" _ _ _ _
      "replicate 22 (of_char CHR ''z'')"] h decode_zs
  show ?thesis
    by blast
qed

end
